theory Spec2Isabelle
  imports Main "HOL-Library.Word" "HOL-Library.Multiset"
begin

section \<open>The simulated executor of exe4cpp (MockExecutor.h)\<close>

subsection \<open>Time, sizes and actions\<close>

text \<open>
  Modelled from the spec: the header that declares \<open>duration_t\<close>, \<open>steady_time_t\<close> and
  \<open>action_t\<close> is not among the sources. The spec describes a duration as a signed quantity
  of elapsed time and a time point as an ordered reading of the steady clock; both are
  \<open>std::chrono\<close> values of the steady clock and are modelled by their tick count, an
  integer. A time point is the tick count since the epoch, the default constructed time
  point is 0, and \<open>steady_time_t::max()\<close> is the largest tick count of the signed 64 bit
  representation.

  The sums and differences of the code are those of the 64 bit tick count. A tick count
  is \<open>representable\<close> when it lies between \<open>- 2 ^ 63\<close> and \<open>steady_time_max\<close>;
  \<open>tick_wrap\<close> gives the two's complement result of an operation whose exact result is
  not (the standard leaves that case undefined). Every sum and difference of the code is
  written with \<open>tick_wrap\<close>, and a statement about an exact sum or difference names the
  condition that it is representable.
\<close>

type_synonym duration_t = int
type_synonym steady_time_t = int

definition steady_time_max :: steady_time_t where
  "steady_time_max = 2 ^ 63 - 1"

definition representable :: "int \<Rightarrow> bool" where
  "representable x = (- (2 ^ 63) \<le> x \<and> x \<le> steady_time_max)"

definition tick_wrap :: "int \<Rightarrow> int" where
  "tick_wrap x = (x + 2 ^ 63) mod 2 ^ 64 - 2 ^ 63"

text \<open>
  \<open>size_t\<close> is unsigned with wrap-around. The only \<open>size_t\<close> that is incremented without
  a bound given by a container or by an argument is the cancellation counter; it is a
  64 bit word. The counts returned by the sweep and by \<open>run_many\<close> never exceed the size of
  a container or the given maximum and are natural numbers.
\<close>

type_synonym size_t = "64 word"

text \<open>
  An action (\<open>std::function<void()>\<close>) is opaque: a value of the type parameter \<open>'a\<close>.
  What the body of an action does is not part of the executor; the model records that the
  action was invoked, and actions that call back into the executor from their body are
  outside the model.

  A \<open>MockTimer\<close> is an object on the heap, and \<open>MockExecutor::cancel\<close> compares
  addresses. The field \<open>ident\<close> is that identity: \<open>start\<close> gives every object it makes
  a number that was never used before (\<open>std::make_shared\<close>). The back pointer
  \<open>source\<close> always points to the one executor of the model and is left out.
\<close>

record 'a MockTimer =
  ident :: nat
  time :: steady_time_t
  action :: 'a

definition expires_at :: "'a MockTimer \<Rightarrow> steady_time_t" where
  "expires_at t = time t"

text \<open>
  An entry of \<open>post_queue\<close> is either the action given to \<open>post\<close> or the closure that
  \<open>find_expired_timer\<close> builds, which captures the timer and a copy of its action.
\<close>

datatype 'a runnable = Posted 'a | Fired "'a MockTimer"

fun run_action :: "'a runnable \<Rightarrow> 'a" where
  "run_action (Posted a) = a"
| "run_action (Fired t) = action t"

subsection \<open>The executor\<close>

text \<open>
  The first four fields are the members of the class. \<open>allocated\<close> counts the
  \<open>MockTimer\<close> objects made so far and is the identity of the next one. \<open>enqueued\<close> and
  \<open>invoked\<close> are histories kept for the statements only: every entry ever pushed to
  \<open>post_queue\<close>, and every entry that \<open>run_one\<close> has invoked, both in order.
\<close>

record 'a MockExecutor =
  num_timer_cancel :: size_t
  current_time :: steady_time_t
  post_queue :: "'a runnable list"
  timers :: "'a MockTimer list"
  allocated :: nat
  enqueued :: "'a runnable list"
  invoked :: "'a runnable list"

definition MockExecutor_init :: "'a MockExecutor" where
  "MockExecutor_init =
     \<lparr>num_timer_cancel = 0, current_time = 0, post_queue = [], timers = [],
      allocated = 0, enqueued = [], invoked = []\<rparr>"

definition num_active :: "'a MockExecutor \<Rightarrow> nat" where
  "num_active s = length (post_queue s)"

definition num_pending_timers :: "'a MockExecutor \<Rightarrow> nat" where
  "num_pending_timers s = length (timers s)"

definition get_time :: "'a MockExecutor \<Rightarrow> steady_time_t" where
  "get_time s = current_time s"

subsection \<open>The algorithms of the standard library that the code calls\<close>

text \<open>
  \<open>std::min_element\<close>: the first smallest element, or the end of the range (\<open>None\<close>)
  when the range is empty. \<open>std::find_if\<close>: the position of the first element that
  satisfies the predicate, or the end (\<open>None\<close>). \<open>erase\<close>: the vector without the
  element at the position.
\<close>

fun min_element :: "('b \<Rightarrow> 'b \<Rightarrow> bool) \<Rightarrow> 'b list \<Rightarrow> 'b option" where
  "min_element lt [] = None"
| "min_element lt (x # xs) =
     Some (foldl (\<lambda>smallest y. if lt y smallest then y else smallest) x xs)"

fun find_if :: "('b \<Rightarrow> bool) \<Rightarrow> 'b list \<Rightarrow> nat option" where
  "find_if p [] = None"
| "find_if p (x # xs) = (if p x then Some 0 else map_option Suc (find_if p xs))"

fun erase :: "nat \<Rightarrow> 'b list \<Rightarrow> 'b list" where
  "erase i [] = []"
| "erase 0 (x # xs) = xs"
| "erase (Suc i) (x # xs) = x # erase i xs"

subsection \<open>The member functions\<close>

definition timer_lt :: "'a MockTimer \<Rightarrow> 'a MockTimer \<Rightarrow> bool" where
  "timer_lt lhs rhs = (expires_at lhs < expires_at rhs)"

definition next_timer_expiration_abs :: "'a MockExecutor \<Rightarrow> steady_time_t" where
  "next_timer_expiration_abs s =
     (case min_element timer_lt (timers s) of
        None \<Rightarrow> 0
      | Some m \<Rightarrow> expires_at m)"


definition expired :: "'a MockExecutor \<Rightarrow> 'a MockTimer \<Rightarrow> bool" where
  "expired s timer = (expires_at timer \<le> current_time s)"

definition find_expired_timer :: "'a MockExecutor \<Rightarrow> bool \<times> 'a MockExecutor" where
  "find_expired_timer s =
     (case find_if (expired s) (timers s) of
        None \<Rightarrow> (False, s)
      | Some iter \<Rightarrow>
          (True, s\<lparr>post_queue := post_queue s @ [Fired (timers s ! iter)],
                   enqueued := enqueued s @ [Fired (timers s ! iter)],
                   timers := erase iter (timers s)\<rparr>))"

lemma find_if_Some_less: "find_if p xs = Some i \<Longrightarrow> i < length xs"
  by (induction xs arbitrary: i) (auto split: if_splits)

lemma length_erase: "i < length xs \<Longrightarrow> length (erase i xs) < length xs"
  by (induction i xs rule: erase.induct) auto

lemma find_expired_timer_shrinks:
  assumes "find_expired_timer s = (True, s')"
  shows "length (timers s') < length (timers s)"
proof (cases "find_if (expired s) (timers s)")
  case None
  with assms show ?thesis by (simp add: find_expired_timer_def)
next
  case (Some i)
  then have "length (erase i (timers s)) < length (timers s)"
    by (intro length_erase find_if_Some_less)
  moreover have "timers s' = erase i (timers s)"
    using assms Some by (auto simp: find_expired_timer_def)
  ultimately show ?thesis by simp
qed

function check_loop :: "nat \<Rightarrow> 'a MockExecutor \<Rightarrow> nat \<times> 'a MockExecutor" where
  "check_loop cnt s =
     (case find_expired_timer s of
        (True, s') \<Rightarrow> check_loop (cnt + 1) s'
      | (False, s') \<Rightarrow> (cnt, s'))"
  by pat_completeness auto
termination
  by (relation "measure (\<lambda>(cnt, s). length (timers s))")
     (auto dest: find_expired_timer_shrinks [OF sym])

declare check_loop.simps [simp del]

definition check_for_expired_timers :: "'a MockExecutor \<Rightarrow> nat \<times> 'a MockExecutor" where
  "check_for_expired_timers s = check_loop 0 s"

definition add_time :: "duration_t \<Rightarrow> 'a MockExecutor \<Rightarrow> 'a MockExecutor" where
  "add_time duration s = s\<lparr>current_time := tick_wrap (current_time s + duration)\<rparr>"

definition advance_time :: "duration_t \<Rightarrow> 'a MockExecutor \<Rightarrow> nat \<times> 'a MockExecutor" where
  "advance_time duration s = check_for_expired_timers (add_time duration s)"

definition advance_to_next_timer :: "'a MockExecutor \<Rightarrow> bool \<times> 'a MockExecutor" where
  "advance_to_next_timer s =
     (if timers s = [] then (False, s)
      else (let timestamp = next_timer_expiration_abs s
            in if timestamp > current_time s
               then (True, s\<lparr>current_time := timestamp\<rparr>)
               else (False, s)))"

definition run_one :: "'a MockExecutor \<Rightarrow> bool \<times> 'a MockExecutor" where
  "run_one s =
     (let s1 = snd (check_for_expired_timers s)
      in case post_queue s1 of
           runnable # rest \<Rightarrow>
             (True, s1\<lparr>post_queue := rest, invoked := invoked s1 @ [runnable]\<rparr>)
         | [] \<Rightarrow> (False, s1))"

function run_many_loop :: "nat \<Rightarrow> nat \<Rightarrow> 'a MockExecutor \<Rightarrow> nat \<times> 'a MockExecutor" where
  "run_many_loop num aMaximum s =
     (if num < aMaximum
      then (case run_one s of
              (True, s') \<Rightarrow> run_many_loop (num + 1) aMaximum s'
            | (False, s') \<Rightarrow> (num, s'))
      else (num, s))"
  by pat_completeness auto
termination
  by (relation "measure (\<lambda>(num, aMaximum, s). aMaximum - num)") auto

declare run_many_loop.simps [simp del]

definition run_many :: "nat \<Rightarrow> 'a MockExecutor \<Rightarrow> nat \<times> 'a MockExecutor" where
  "run_many aMaximum s = run_many_loop 0 aMaximum s"

definition post :: "'a \<Rightarrow> 'a MockExecutor \<Rightarrow> 'a MockExecutor" where
  "post runnable s =
     s\<lparr>post_queue := post_queue s @ [Posted runnable],
       enqueued := enqueued s @ [Posted runnable]\<rparr>"

text \<open>
  Both overloads of \<open>start\<close> return the handle of the new timer together with the new
  state; the handle refers to the object by its identity.
\<close>

definition start_abs :: "steady_time_t \<Rightarrow> 'a \<Rightarrow> 'a MockExecutor \<Rightarrow> nat \<times> 'a MockExecutor" where
  "start_abs tm runnable s =
     (allocated s,
      s\<lparr>timers := timers s @ [\<lparr>ident = allocated s, time = tm, action = runnable\<rparr>],
        allocated := Suc (allocated s)\<rparr>)"

definition start_rel :: "duration_t \<Rightarrow> 'a \<Rightarrow> 'a MockExecutor \<Rightarrow> nat \<times> 'a MockExecutor" where
  "start_rel delay runnable s = start_abs (tick_wrap (current_time s + delay)) runnable s"

definition cancel :: "nat \<Rightarrow> 'a MockExecutor \<Rightarrow> 'a MockExecutor" where
  "cancel timer s =
     (case find_if (\<lambda>item. ident item = timer) (timers s) of
        Some result \<Rightarrow>
          s\<lparr>num_timer_cancel := num_timer_cancel s + 1,
            timers := erase result (timers s)\<rparr>
      | None \<Rightarrow> s)"

definition MockTimer_cancel :: "'a MockTimer \<Rightarrow> 'a MockExecutor \<Rightarrow> 'a MockExecutor" where
  "MockTimer_cancel this s = cancel (ident this) s"

subsection \<open>The calls of the public interface\<close>

text \<open>
  One value for each call a test harness can make; \<open>Cancel h\<close> is \<open>cancel()\<close> on the
  handle \<open>h\<close> that \<open>start\<close> returned. \<open>calls\<close> makes a sequence of calls in order.
\<close>

datatype 'a call =
    Post 'a
  | StartRel duration_t 'a
  | StartAbs steady_time_t 'a
  | Cancel nat
  | RunOne
  | RunMany nat
  | AdvanceTime duration_t
  | AddTime duration_t
  | AdvanceToNextTimer

fun perform :: "'a call \<Rightarrow> 'a MockExecutor \<Rightarrow> 'a MockExecutor" where
  "perform (Post a) s = post a s"
| "perform (StartRel d a) s = snd (start_rel d a s)"
| "perform (StartAbs t a) s = snd (start_abs t a s)"
| "perform (Cancel h) s = cancel h s"
| "perform RunOne s = snd (run_one s)"
| "perform (RunMany n) s = snd (run_many n s)"
| "perform (AdvanceTime d) s = snd (advance_time d s)"
| "perform (AddTime d) s = add_time d s"
| "perform AdvanceToNextTimer s = snd (advance_to_next_timer s)"

definition calls :: "'a call list \<Rightarrow> 'a MockExecutor \<Rightarrow> 'a MockExecutor" where
  "calls cs s = fold perform cs s"

subsection \<open>The sweep, as the specification words it\<close>

text \<open>
  \<open>due s\<close> are the pending timers whose expiration is at or before the current virtual
  time, in the order of the pending set. \<open>sweep s\<close> moves all of them to the back of the
  ready queue in that order and keeps the others pending.
\<close>

definition due :: "'a MockExecutor \<Rightarrow> 'a MockTimer list" where
  "due s = filter (expired s) (timers s)"

definition sweep :: "'a MockExecutor \<Rightarrow> 'a MockExecutor" where
  "sweep s =
     s\<lparr>post_queue := post_queue s @ map Fired (due s),
       enqueued := enqueued s @ map Fired (due s),
       timers := filter (\<lambda>t. \<not> expired s t) (timers s)\<rparr>"

text \<open>
  \<open>run_one\<close> in the words of the specification: sweep, then pop and invoke the front
  entry if there is one.
\<close>

definition run_one_spec :: "'a MockExecutor \<Rightarrow> bool \<times> 'a MockExecutor" where
  "run_one_spec s =
     (if post_queue (sweep s) = [] then (False, sweep s)
      else (True, (sweep s)\<lparr>post_queue := tl (post_queue (sweep s)),
                             invoked := invoked (sweep s) @ [hd (post_queue (sweep s))]\<rparr>))"

text \<open>The earliest expiration among the pending timers (meaningful when one is pending).\<close>

definition earliest :: "'a MockExecutor \<Rightarrow> steady_time_t" where
  "earliest s = Min (expires_at ` set (timers s))"


subsection \<open>Histories and identities, for the statements\<close>

text \<open>
  \<open>fifo s\<close>: the entries ever pushed to the ready queue are those invoked so far followed
  by those still queued. \<open>idents s\<close> lists the identities of the timer objects the
  scheduler knows: the pending ones, those fired and waiting in the ready queue, and those
  fired and run. \<open>unique_idents s\<close>: no identity occurs twice and all were handed out by
  \<open>start\<close>. \<open>gone p s\<close>: the identity \<open>p\<close> was handed out and is in none of the three
  places.
\<close>


fun fired_ident :: "'a runnable \<Rightarrow> nat list" where
  "fired_ident (Posted a) = []"
| "fired_ident (Fired t) = [ident t]"

definition fired_idents :: "'a runnable list \<Rightarrow> nat list" where
  "fired_idents es = concat (map fired_ident es)"

definition idents :: "'a MockExecutor \<Rightarrow> nat list" where
  "idents s = map ident (timers s) @ fired_idents (post_queue s) @ fired_idents (invoked s)"

definition unique_idents :: "'a MockExecutor \<Rightarrow> bool" where
  "unique_idents s = (distinct (idents s) \<and> list_all (\<lambda>i. i < allocated s) (idents s))"

definition fifo :: "'a MockExecutor \<Rightarrow> bool" where
  "fifo s = (enqueued s = invoked s @ post_queue s)"

definition gone :: "nat \<Rightarrow> 'a MockExecutor \<Rightarrow> bool" where
  "gone p s = (p \<notin> set (idents s) \<and> p < allocated s)"

section \<open>Properties\<close>

subsection \<open>Tick counts\<close>

lemma tick_wrap_id: "representable x \<Longrightarrow> tick_wrap x = x"
proof -
  assume "representable x"
  then have "0 \<le> x + 2 ^ 63" and "x + 2 ^ 63 < 2 ^ 64"
    by (simp_all add: representable_def steady_time_max_def)
  then have "(x + 2 ^ 63) mod 2 ^ 64 = x + 2 ^ 63"
    by (rule mod_pos_pos_trivial)
  then show ?thesis by (simp add: tick_wrap_def)
qed


subsection \<open>The loop of \<open>check_for_expired_timers\<close> is the sweep\<close>

lemma find_if_None_iff: "find_if p xs = None \<longleftrightarrow> filter p xs = []"
  by (induction xs) auto

lemma find_if_Some_filter:
  "find_if p xs = Some i \<Longrightarrow>
     filter p xs = xs ! i # filter p (erase i xs) \<and>
     filter (\<lambda>x. \<not> p x) (erase i xs) = filter (\<lambda>x. \<not> p x) xs"
  by (induction xs arbitrary: i) (auto split: if_splits)

lemma expired_cong: "current_time s' = current_time s \<Longrightarrow> expired s' = expired s"
  by (simp add: expired_def fun_eq_iff)

lemma check_loop_sweep: "check_loop c s = (c + length (due s), sweep s)"
proof (induction c s rule: check_loop.induct)
  case (1 cnt s)
  show ?case
  proof (cases "find_if (expired s) (timers s)")
    case None
    then have "filter (expired s) (timers s) = []"
      by (simp add: find_if_None_iff)
    then have "due s = []" and "filter (\<lambda>t. \<not> expired s t) (timers s) = timers s"
      by (auto simp: due_def filter_empty_conv filter_id_conv)
    with None show ?thesis
      by (subst check_loop.simps) (simp add: find_expired_timer_def sweep_def)
  next
    case (Some i)
    define s' where "s' = s\<lparr>post_queue := post_queue s @ [Fired (timers s ! i)],
                   enqueued := enqueued s @ [Fired (timers s ! i)],
                   timers := erase i (timers s)\<rparr>"
    have fe: "find_expired_timer s = (True, s')"
      using Some by (simp add: find_expired_timer_def s'_def)
    have ex: "expired s' = expired s"
      by (rule expired_cong) (simp add: s'_def)
    from find_if_Some_filter [OF Some]
    have d: "due s = timers s ! i # due s'"
      and k: "filter (\<lambda>t. \<not> expired s t) (timers s') = filter (\<lambda>t. \<not> expired s t) (timers s)"
      by (simp_all add: due_def ex) (simp_all add: s'_def)
    have "check_loop cnt s = check_loop (cnt + 1) s'"
      using fe by (subst check_loop.simps) simp
    also have "\<dots> = (cnt + 1 + length (due s'), sweep s')"
      using "1.IH" [OF fe [symmetric]] by simp
    also have "sweep s' = sweep s"
      using d k by (simp add: sweep_def ex) (simp add: s'_def)
    finally show ?thesis using d by simp
  qed
qed

lemma check_for_expired_timers_sweep:
  "check_for_expired_timers s = (length (due s), sweep s)"
  by (simp add: check_for_expired_timers_def check_loop_sweep)

lemma sweep_fields [simp]:
  "current_time (sweep s) = current_time s"
  "num_timer_cancel (sweep s) = num_timer_cancel s"
  "allocated (sweep s) = allocated s"
  "invoked (sweep s) = invoked s"
  "post_queue (sweep s) = post_queue s @ map Fired (due s)"
  "enqueued (sweep s) = enqueued s @ map Fired (due s)"
  "timers (sweep s) = filter (\<lambda>t. \<not> expired s t) (timers s)"
  by (simp_all add: sweep_def)

lemma run_one_refines: "run_one s = run_one_spec s"
  by (cases "post_queue (sweep s)")
     (simp_all add: run_one_def run_one_spec_def check_for_expired_timers_sweep Let_def
               del: sweep_fields)

subsection \<open>The earliest pending expiration\<close>

lemma foldl_min_time:
  "expires_at (foldl (\<lambda>smallest y. if timer_lt y smallest then y else smallest) x xs)
     = Min (expires_at ` set (x # xs))"
proof (induction xs arbitrary: x)
  case Nil
  show ?case by simp
next
  case (Cons y ys)
  show ?case
  proof (cases "timer_lt y x")
    case True
    then have "min (expires_at x) (expires_at y) = expires_at y"
      by (simp add: timer_lt_def)
    then have "Min (expires_at ` set (x # y # ys)) = Min (expires_at ` set (y # ys))"
      by (cases "ys = []") (simp_all add: min.assoc [symmetric])
    with True Cons [of y] show ?thesis by simp
  next
    case False
    then have "min (expires_at x) (expires_at y) = expires_at x"
      by (simp add: timer_lt_def)
    then have "Min (expires_at ` set (x # y # ys)) = Min (expires_at ` set (x # ys))"
      by (cases "ys = []") (simp_all add: min.assoc [symmetric])
    with False Cons [of x] show ?thesis by simp
  qed
qed

lemma min_element_earliest:
  "timers s \<noteq> [] \<Longrightarrow>
     \<exists>m. min_element timer_lt (timers s) = Some m \<and> expires_at m = earliest s"
  by (cases "timers s") (simp_all add: foldl_min_time earliest_def del: set_simps)

lemma abs_earliest: "timers s \<noteq> [] \<Longrightarrow> next_timer_expiration_abs s = earliest s"
  using min_element_earliest [of s] by (auto simp: next_timer_expiration_abs_def)

subsection \<open>The claims\<close>

text \<open>
  C1, as the specification states it: on a fresh scheduler, \<open>post(A)\<close>, then
  \<open>schedule_absolute(now, B)\<close>, then \<open>post(C)\<close>, then \<open>run_many(3)\<close> runs the actions
  in the order A, B, C. The code does not: B is swept to the back of the ready queue by
  the first \<open>run_one\<close>, when C is already in the queue.
\<close>

theorem C1_order_counterexample:
  "map run_action (invoked (snd (run_many 3
     (post ''C'' (snd (start_abs (get_time (post ''A'' MockExecutor_init)) ''B''
        (post ''A'' MockExecutor_init)))))))
   \<noteq> [''A'', ''B'', ''C'']"
  by code_simp

text \<open>
  C1, amended: for the sequence \<open>post(A)\<close>, \<open>schedule_absolute(now, B)\<close>, \<open>post(C)\<close>,
  \<open>run_many(3)\<close> on a fresh scheduler, the three actions run in the order A, C, B, and
  \<open>run_many\<close> returns 3.
\<close>

theorem C1_interleaving_order:
  "map run_action (invoked (snd (run_many 3
     (post C (snd (start_abs (get_time (post A MockExecutor_init)) B
        (post A MockExecutor_init)))))))
   = [A, C, B]
   \<and> fst (run_many 3
     (post C (snd (start_abs (get_time (post A MockExecutor_init)) B
        (post A MockExecutor_init))))) = 3"
  by (simp add: run_many_def run_many_loop.simps run_one_def check_for_expired_timers_def
        check_loop.simps find_expired_timer_def post_def start_abs_def MockExecutor_init_def
        expired_def expires_at_def get_time_def)

theorem C1_interleaving_order_witness:
  "map run_action (invoked (snd (run_many 3
     (post ''C'' (snd (start_abs (get_time (post ''A'' MockExecutor_init)) ''B''
        (post ''A'' MockExecutor_init)))))))
   = [''A'', ''C'', ''B'']"
  using C1_interleaving_order [where A = "''A''" and B = "''B''" and C = "''C''"] by simp

text \<open>
  C2, as the specification states it: for every duration, negative ones included,
  \<open>add_time\<close> and \<open>advance_time\<close> never decrease \<open>get_time()\<close>. The code adds the
  duration to the clock without looking at its sign: a duration of -1 on a fresh
  scheduler moves the clock from 0 to -1.
\<close>

theorem C2_rewind_counterexample:
  "get_time (add_time (- 1) (MockExecutor_init :: nat MockExecutor))
     < get_time (MockExecutor_init :: nat MockExecutor)
   \<and> get_time (snd (advance_time (- 1) (MockExecutor_init :: nat MockExecutor)))
     < get_time (MockExecutor_init :: nat MockExecutor)"
  by (simp add: get_time_def add_time_def advance_time_def check_for_expired_timers_sweep
        MockExecutor_init_def tick_wrap_def)

text \<open>
  C2, amended: for every scheduler state and every duration that is not negative and
  whose sum with the current virtual time is representable (the 64 bit tick count does
  not overflow), \<open>add_time\<close> and \<open>advance_time\<close> never decrease the value returned by
  \<open>get_time()\<close>; the clock after the call is the clock before the call plus the
  duration.
\<close>

theorem C2_clock_monotone:
  "0 \<le> d \<Longrightarrow> representable (get_time s + d) \<Longrightarrow>
     get_time s \<le> get_time (add_time d s) \<and>
     get_time s \<le> get_time (snd (advance_time d s)) \<and>
     get_time (add_time d s) = get_time s + d \<and>
     get_time (snd (advance_time d s)) = get_time s + d"
  by (simp add: get_time_def add_time_def advance_time_def check_for_expired_timers_sweep
        tick_wrap_id)

theorem C2_clock_monotone_witness:
  "(0::int) \<le> 5 \<and>
   representable (get_time (snd (start_abs 3 ''B'' MockExecutor_init)) + 5) \<and>
   get_time (snd (start_abs 3 ''B'' MockExecutor_init))
     \<le> get_time (add_time 5 (snd (start_abs 3 ''B'' MockExecutor_init))) \<and>
   get_time (snd (start_abs 3 ''B'' MockExecutor_init))
     \<le> get_time (snd (advance_time 5 (snd (start_abs 3 ''B'' MockExecutor_init)))) \<and>
   get_time (snd (advance_time 5 (snd (start_abs 3 ''B'' MockExecutor_init)))) = 5"
proof -
  have g: "get_time (snd (start_abs 3 ''B'' MockExecutor_init)) = 0"
    by (simp add: get_time_def start_abs_def MockExecutor_init_def)
  have r: "representable (get_time (snd (start_abs 3 ''B'' MockExecutor_init)) + 5)"
    by (simp add: g representable_def steady_time_max_def)
  from C2_clock_monotone [of 5 "snd (start_abs 3 ''B'' MockExecutor_init)", OF _ r] r g
  show ?thesis by simp
qed

text \<open>
  C4, as the specification states it: whenever no pending timer expires in the interval
  \<open>(old_time, old_time + d]\<close>, \<open>advance_time(d)\<close> returns 0 and leaves the length of
  the ready queue unchanged. The sweep of \<open>advance_time\<close> takes every pending timer whose
  expiration is at or before the new time, also one that was due before the call: a timer
  started at expiration 0 on a fresh scheduler (time 0) is not in \<open>(0, 5]\<close>, and
  \<open>advance_time(5)\<close> returns 1 and the ready queue grows from 0 to 1.
\<close>

theorem C4_already_due_counterexample:
  "timers (snd (start_abs 0 ''B'' MockExecutor_init)) = [\<lparr>ident = 0, time = 0, action = ''B''\<rparr>]
   \<and> current_time (snd (start_abs 0 ''B'' MockExecutor_init)) = 0
   \<and> fst (advance_time 5 (snd (start_abs 0 ''B'' MockExecutor_init))) = 1
   \<and> num_active (snd (start_abs 0 ''B'' MockExecutor_init)) = 0
   \<and> num_active (snd (advance_time 5 (snd (start_abs 0 ''B'' MockExecutor_init)))) = 1"
  by (simp add: advance_time_def check_for_expired_timers_sweep due_def expired_def
        expires_at_def add_time_def start_abs_def MockExecutor_init_def num_active_def
        tick_wrap_def)

text \<open>
  C4, amended: for every scheduler state and duration \<open>d\<close> such that \<open>old_time + d\<close> is
  representable and no pending timer's expiration is at or before \<open>old_time + d\<close> (none
  lies in \<open>(old_time, old_time + d]\<close> and none was due before that interval),
  \<open>advance_time(d)\<close> returns 0, and the ready queue and the pending set are the same
  after the call as before it. The condition cannot be weakened: with \<open>old_time + d\<close>
  representable, \<open>advance_time(d)\<close> returns 0 only if no pending expiration is at or
  before \<open>old_time + d\<close>.
\<close>

theorem C4_no_spurious_firing:
  assumes "representable (current_time s + d)"
  shows "((\<forall>t \<in> set (timers s). current_time s + d < expires_at t) \<longrightarrow>
            fst (advance_time d s) = 0
          \<and> num_active (snd (advance_time d s)) = num_active s
          \<and> post_queue (snd (advance_time d s)) = post_queue s
          \<and> timers (snd (advance_time d s)) = timers s)
       \<and> (fst (advance_time d s) = 0 \<longrightarrow>
            (\<forall>t \<in> set (timers s). current_time s + d < expires_at t))"
proof -
  have now: "current_time (add_time d s) = current_time s + d"
    using assms by (simp add: add_time_def tick_wrap_id)
  have ex: "expired (add_time d s) t \<longleftrightarrow> \<not> current_time s + d < expires_at t" for t
    by (auto simp: now expired_def)
  have cnt: "fst (advance_time d s) = length (due (add_time d s))"
    by (simp add: advance_time_def check_for_expired_timers_sweep)
  have nec: "\<forall>t \<in> set (timers s). current_time s + d < expires_at t"
    if "fst (advance_time d s) = 0"
  proof -
    from that have "filter (expired (add_time d s)) (timers s) = []"
      by (simp add: cnt due_def add_time_def)
    then show ?thesis
      by (simp add: filter_empty_conv ex)
  qed
  have suf: "fst (advance_time d s) = 0
          \<and> num_active (snd (advance_time d s)) = num_active s
          \<and> post_queue (snd (advance_time d s)) = post_queue s
          \<and> timers (snd (advance_time d s)) = timers s"
    if h: "\<forall>t \<in> set (timers s). current_time s + d < expires_at t"
  proof -
    from h have "\<forall>t \<in> set (timers s). \<not> expired (add_time d s) t"
      by (simp add: ex)
    then have "due (add_time d s) = []"
      and "filter (\<lambda>t. \<not> expired (add_time d s) t) (timers s) = timers s"
      by (auto simp: due_def add_time_def filter_empty_conv filter_id_conv)
    then show ?thesis
      by (simp add: advance_time_def check_for_expired_timers_sweep num_active_def)
         (simp add: add_time_def)
  qed
  from suf nec show ?thesis by blast
qed

theorem C4_no_spurious_firing_witness:
  "fst (advance_time 5 (snd (start_abs 10 ''B'' MockExecutor_init))) = 0
   \<and> num_active (snd (advance_time 5 (snd (start_abs 10 ''B'' MockExecutor_init))))
       = num_active (snd (start_abs 10 ''B'' MockExecutor_init))
   \<and> timers (snd (start_abs 10 ''B'' MockExecutor_init)) = [\<lparr>ident = 0, time = 10, action = ''B''\<rparr>]
   \<and> fst (advance_time (- 1) (snd (start_abs 0 ''B'' MockExecutor_init))) = 0
   \<and> representable (current_time (snd (start_abs 10 ''B'' MockExecutor_init)) + 5)"
proof -
  let ?s = "snd (start_abs 10 ''B'' MockExecutor_init)"
  let ?u = "snd (start_abs 0 ''B'' MockExecutor_init)"
  have t: "timers ?s = [\<lparr>ident = 0, time = 10, action = ''B''\<rparr>]" and c: "current_time ?s = 0"
    by (simp_all add: start_abs_def MockExecutor_init_def)
  have r: "representable (current_time ?s + 5)"
    by (simp add: c representable_def steady_time_max_def)
  have h: "\<forall>t \<in> set (timers ?s). current_time ?s + 5 < expires_at t"
    by (simp add: t c expires_at_def)
  have tu: "timers ?u = [\<lparr>ident = 0, time = 0, action = ''B''\<rparr>]" and cu: "current_time ?u = 0"
    by (simp_all add: start_abs_def MockExecutor_init_def)
  have ru: "representable (current_time ?u + (- 1))"
    by (simp add: cu representable_def steady_time_max_def)
  have hu: "\<forall>t \<in> set (timers ?u). current_time ?u + (- 1) < expires_at t"
    by (simp add: tu cu expires_at_def)
  from C4_no_spurious_firing [OF r] h
  have a: "fst (advance_time 5 ?s) = 0 \<and> num_active (snd (advance_time 5 ?s)) = num_active ?s"
    by blast
  from C4_no_spurious_firing [OF ru] hu
  have b: "fst (advance_time (- 1) ?u) = 0"
    by blast
  from a b t r show ?thesis by simp
qed

text \<open>
  C6: \<open>run_one()\<close> first moves every pending timer whose expiration is at or before the
  current virtual time to the ready queue (the sweep: \<open>check_for_expired_timers\<close>
  returns their number and the swept state), then pops and invokes the front entry of
  the ready queue and returns true, or returns false if the queue is empty after the
  sweep. \<open>run_one_spec\<close> is that description, \<open>run_one\<close> is the code.
\<close>

theorem C6_run_one:
  "run_one s = run_one_spec s
   \<and> check_for_expired_timers s = (length (due s), sweep s)"
  by (simp add: run_one_refines check_for_expired_timers_sweep)


theorem C6_run_one_witness:
  "run_one (post ''C'' (snd (start_abs 0 ''B'' MockExecutor_init)))
     = run_one_spec (post ''C'' (snd (start_abs 0 ''B'' MockExecutor_init)))
   \<and> invoked (snd (run_one_spec (post ''C'' (snd (start_abs 0 ''B'' MockExecutor_init)))))
     = [Posted ''C'']
   \<and> post_queue (snd (run_one_spec (post ''C'' (snd (start_abs 0 ''B'' MockExecutor_init)))))
     = [Fired \<lparr>ident = 0, time = 0, action = ''B''\<rparr>]
   \<and> fst (run_one_spec (post ''C'' (snd (start_abs 0 ''B'' MockExecutor_init))))
   \<and> \<not> fst (run_one (MockExecutor_init :: string MockExecutor))"
  using C6_run_one [of "post ''C'' (snd (start_abs 0 ''B'' MockExecutor_init))"]
    C6_run_one [of "MockExecutor_init :: string MockExecutor"]
  by (simp add: run_one_spec_def due_def expired_def expires_at_def post_def start_abs_def
        MockExecutor_init_def)

text \<open>
  C8: \<open>advance_to_next_timer()\<close> sets the virtual clock to exactly the earliest pending
  expiration and returns true when a timer is pending and that earliest expiration is
  strictly after the current virtual time; otherwise it returns false and changes
  nothing. It never sweeps: the pending set and the ready queue are the same after the
  call in every case.
\<close>

theorem C8_advance_to_next_timer:
  "advance_to_next_timer s =
     (if timers s \<noteq> [] \<and> current_time s < earliest s
      then (True, s\<lparr>current_time := earliest s\<rparr>) else (False, s))
   \<and> timers (snd (advance_to_next_timer s)) = timers s
   \<and> post_queue (snd (advance_to_next_timer s)) = post_queue s"
  by (simp add: advance_to_next_timer_def abs_earliest Let_def)

theorem C8_advance_to_next_timer_witness:
  "advance_to_next_timer (snd (start_abs 3 ''C'' (snd (start_abs 7 ''B'' MockExecutor_init))))
     = (True, (snd (start_abs 3 ''C'' (snd (start_abs 7 ''B'' MockExecutor_init))))
                \<lparr>current_time := 3\<rparr>)
   \<and> advance_to_next_timer (MockExecutor_init :: string MockExecutor)
     = (False, MockExecutor_init)"
  using C8_advance_to_next_timer
          [of "snd (start_abs 3 ''C'' (snd (start_abs 7 ''B'' MockExecutor_init)))"]
    C8_advance_to_next_timer [of "MockExecutor_init :: string MockExecutor"]
  by (simp add: earliest_def expires_at_def start_abs_def MockExecutor_init_def)



text \<open>
  C10: for every action and every expiration time, also one at or before the current
  virtual time, both overloads of \<open>start\<close> append exactly one record to the pending
  timers (\<open>num_pending_timers()\<close> grows by 1) and leave the ready queue, the virtual
  clock and the cancellation counter unchanged; no action is invoked during the call.
  The relative overload uses the expiration \<open>current_time + delay\<close>, a sum of 64 bit
  tick counts: it is the exact sum whenever that is representable.
\<close>

theorem C10_start_frame:
  "num_pending_timers (snd (start_abs t a s)) = num_pending_timers s + 1
   \<and> timers (snd (start_abs t a s))
       = timers s @ [\<lparr>ident = fst (start_abs t a s), time = t, action = a\<rparr>]
   \<and> post_queue (snd (start_abs t a s)) = post_queue s
   \<and> current_time (snd (start_abs t a s)) = current_time s
   \<and> num_timer_cancel (snd (start_abs t a s)) = num_timer_cancel s
   \<and> invoked (snd (start_abs t a s)) = invoked s
   \<and> num_pending_timers (snd (start_rel d a s)) = num_pending_timers s + 1
   \<and> timers (snd (start_rel d a s))
       = timers s @ [\<lparr>ident = fst (start_rel d a s),
                       time = tick_wrap (current_time s + d), action = a\<rparr>]
   \<and> (representable (current_time s + d) \<longrightarrow>
        timers (snd (start_rel d a s))
          = timers s @ [\<lparr>ident = fst (start_rel d a s),
                          time = current_time s + d, action = a\<rparr>])
   \<and> post_queue (snd (start_rel d a s)) = post_queue s
   \<and> current_time (snd (start_rel d a s)) = current_time s
   \<and> num_timer_cancel (snd (start_rel d a s)) = num_timer_cancel s
   \<and> invoked (snd (start_rel d a s)) = invoked s"
  by (simp add: start_rel_def start_abs_def num_pending_timers_def tick_wrap_id)

theorem C10_start_frame_witness:
  "num_pending_timers (snd (start_abs (- 4) ''B'' (post ''A'' MockExecutor_init))) = 1
   \<and> post_queue (snd (start_abs (- 4) ''B'' (post ''A'' MockExecutor_init))) = [Posted ''A'']
   \<and> invoked (snd (start_rel (- 4) ''B'' (post ''A'' MockExecutor_init))) = []
   \<and> num_pending_timers (snd (start_rel (- 4) ''B'' (post ''A'' MockExecutor_init))) = 1
   \<and> representable (current_time (post ''A'' MockExecutor_init) + (- 4))
   \<and> timers (snd (start_rel (- 4) ''B'' (post ''A'' MockExecutor_init)))
       = [\<lparr>ident = 0, time = - 4, action = ''B''\<rparr>]"
proof -
  have r: "representable (current_time (post ''A'' MockExecutor_init) + (- 4))"
    by (simp add: post_def MockExecutor_init_def representable_def steady_time_max_def)
  from C10_start_frame [of "- 4" "''B''" "post ''A'' MockExecutor_init" "- 4"] r
  show ?thesis
    by (simp add: num_pending_timers_def post_def MockExecutor_init_def start_rel_def
          start_abs_def)
qed

subsection \<open>Draining the ready queue\<close>

lemma run_one_Nil:
  "post_queue (sweep s) = [] \<Longrightarrow> run_one s = (False, sweep s)"
  by (simp add: run_one_refines run_one_spec_def del: sweep_fields)

lemma run_one_Cons:
  "post_queue (sweep s) = e # q \<Longrightarrow>
     run_one s = (True, (sweep s)\<lparr>post_queue := q, invoked := invoked s @ [e]\<rparr>)"
  by (simp add: run_one_refines run_one_spec_def del: sweep_fields) simp

lemma run_many_loop_prefix:
  "n \<le> length (post_queue s) \<Longrightarrow>
     fst (run_many_loop k (k + n) s) = k + n \<and>
     invoked (snd (run_many_loop k (k + n) s)) = invoked s @ take n (post_queue s)"
proof (induction n arbitrary: k s)
  case 0
  show ?case by (subst (1 2) run_many_loop.simps) simp
next
  case (Suc n)
  then obtain e q where q: "post_queue s = e # q"
    by (cases "post_queue s") auto
  define s1 where "s1 = (sweep s)\<lparr>post_queue := q @ map Fired (due s), invoked := invoked s @ [e]\<rparr>"
  have r: "run_one s = (True, s1)"
    using run_one_Cons [of s e "q @ map Fired (due s)"] q by (simp add: s1_def)
  have i1: "invoked s1 = invoked s @ [e]" and q1: "post_queue s1 = q @ map Fired (due s)"
    by (simp_all add: s1_def)
  have len: "n \<le> length (post_queue s1)"
    using Suc.prems q by (simp add: q1)
  have step: "run_many_loop k (k + Suc n) s = run_many_loop (Suc k) (Suc k + n) s1"
    by (subst run_many_loop.simps) (simp add: r)
  have "fst (run_many_loop (Suc k) (Suc k + n) s1) = Suc k + n \<and>
     invoked (snd (run_many_loop (Suc k) (Suc k + n) s1)) = invoked s1 @ take n (post_queue s1)"
    by (rule Suc.IH [OF len])
  moreover have "invoked s1 @ take n (post_queue s1) = invoked s @ take (Suc n) (post_queue s)"
    using Suc.prems q by (simp add: i1 q1)
  ultimately show ?case
    unfolding step by simp
qed

lemma fold_post_fields:
  "post_queue (fold post as s) = post_queue s @ map Posted as"
  "invoked (fold post as s) = invoked s"
  by (induction as arbitrary: s) (simp_all add: post_def)

subsection \<open>The order of the ready queue\<close>

lemma fifo_sweep: "fifo s \<Longrightarrow> fifo (sweep s)"
  by (simp add: fifo_def)

lemma fifo_run_one: "fifo s \<Longrightarrow> fifo (snd (run_one s))"
proof (cases "post_queue (sweep s)")
  case Nil
  assume "fifo s"
  then show ?thesis using run_one_Nil [OF Nil] by (simp add: fifo_sweep)
next
  case (Cons e q)
  assume "fifo s"
  then have "enqueued (sweep s) = invoked s @ post_queue (sweep s)"
    by (simp add: fifo_def)
  then have "enqueued (sweep s) = (invoked s @ [e]) @ q"
    unfolding Cons by simp
  then show ?thesis
    unfolding run_one_Cons [OF Cons] fifo_def by simp
qed

lemma fifo_run_many_loop: "fifo s \<Longrightarrow> fifo (snd (run_many_loop k m s))"
proof (induction k m s rule: run_many_loop.induct)
  case (1 num aMaximum s)
  show ?case
  proof (cases "num < aMaximum")
    case False
    then show ?thesis using "1.prems" by (subst run_many_loop.simps) simp
  next
    case True
    obtain b s' where r: "run_one s = (b, s')" by (cases "run_one s")
    have f': "fifo s'" using fifo_run_one [OF "1.prems"] r by simp
    show ?thesis
    proof (cases b)
      case True
      with \<open>num < aMaximum\<close> r "1.IH" [OF _ _ _ f'] show ?thesis
        by (subst run_many_loop.simps) simp
    next
      case False
      with \<open>num < aMaximum\<close> r f' show ?thesis
        by (subst run_many_loop.simps) simp
    qed
  qed
qed

lemma fifo_perform: "fifo s \<Longrightarrow> fifo (perform c s)"
proof (cases c)
  case (Cancel h)
  assume "fifo s" then show ?thesis
    by (simp add: Cancel cancel_def fifo_def split: option.splits)
next
  case RunOne
  assume "fifo s" then show ?thesis by (simp add: RunOne fifo_run_one)
next
  case (RunMany n)
  assume "fifo s" then show ?thesis by (simp add: RunMany run_many_def fifo_run_many_loop)
next
  case (AdvanceTime d)
  assume "fifo s"
  then have "fifo (add_time d s)" by (simp add: fifo_def add_time_def)
  then show ?thesis
    by (simp add: AdvanceTime advance_time_def check_for_expired_timers_sweep fifo_sweep
             del: sweep_fields)
qed (simp_all add: fifo_def post_def start_rel_def start_abs_def add_time_def
       advance_to_next_timer_def Let_def)

lemma fifo_calls: "fifo s \<Longrightarrow> fifo (calls cs s)"
  unfolding calls_def by (induction cs arbitrary: s) (simp_all add: fifo_perform)

lemma fifo_init: "fifo MockExecutor_init"
  by (simp add: fifo_def MockExecutor_init_def)

text \<open>
  C5: the ready queue is strictly first in, first out. From every state, after the
  actions \<open>as\<close> have been posted in order, \<open>run_many\<close> with the number of entries then
  queued runs that many entries: those that were queued before, then the posted actions
  in the order posted; on an empty ready queue \<open>run_many(N)\<close> after \<open>N\<close> posts runs
  exactly the posted actions in their order. In general, in every state reached from a
  fresh scheduler by any sequence of calls, the entries ever pushed to the ready queue (by
  \<open>post\<close> or by the sweep of expired timers) are the entries invoked so far followed by
  the entries still queued: the n-th entry enqueued is the n-th entry dequeued.
\<close>

theorem C5_fifo:
  "fst (run_many (num_active s + length as) (fold post as s)) = num_active s + length as
   \<and> invoked (snd (run_many (num_active s + length as) (fold post as s)))
       = invoked s @ post_queue s @ map Posted as
   \<and> (num_active s = 0 \<longrightarrow>
        map run_action (drop (length (invoked s))
          (invoked (snd (run_many (length as) (fold post as s))))) = as)
   \<and> enqueued (calls cs MockExecutor_init)
       = invoked (calls cs MockExecutor_init) @ post_queue (calls cs MockExecutor_init)
   \<and> (\<forall>n < length (invoked (calls cs MockExecutor_init)).
        invoked (calls cs MockExecutor_init) ! n = enqueued (calls cs MockExecutor_init) ! n)"
proof -
  let ?s0 = "fold post as s"
  have len: "num_active s + length as \<le> length (post_queue ?s0)"
    by (simp add: fold_post_fields num_active_def)
  from run_many_loop_prefix [OF len, of 0]
  have a: "fst (run_many (num_active s + length as) ?s0) = num_active s + length as"
    and b: "invoked (snd (run_many (num_active s + length as) ?s0))
       = invoked s @ post_queue s @ map Posted as"
    by (simp_all add: run_many_def fold_post_fields num_active_def)
  have c: "num_active s = 0 \<longrightarrow>
        map run_action (drop (length (invoked s))
          (invoked (snd (run_many (length as) (fold post as s))))) = as"
    using b by (auto simp: num_active_def comp_def)
  have "fifo (calls cs MockExecutor_init)"
    by (rule fifo_calls [OF fifo_init])
  then have d: "enqueued (calls cs MockExecutor_init)
       = invoked (calls cs MockExecutor_init) @ post_queue (calls cs MockExecutor_init)"
    by (simp add: fifo_def)
  have e: "\<forall>n < length (invoked (calls cs MockExecutor_init)).
        invoked (calls cs MockExecutor_init) ! n = enqueued (calls cs MockExecutor_init) ! n"
    by (simp add: d nth_append)
  from a b c d e show ?thesis by blast
qed

theorem C5_fifo_witness:
  "fst (run_many (Suc (Suc 0)) (fold post [''x'', ''y''] MockExecutor_init)) = Suc (Suc 0)
   \<and> map run_action (invoked (snd (run_many (Suc (Suc 0))
         (fold post [''x'', ''y''] MockExecutor_init)))) = [''x'', ''y'']
   \<and> enqueued (calls [Post ''A'', StartAbs 0 ''B'', RunOne, RunOne] MockExecutor_init)
       = [Posted ''A'', Fired \<lparr>ident = 0, time = 0, action = ''B''\<rparr>]
   \<and> invoked (calls [Post ''A'', StartAbs 0 ''B'', RunOne, RunOne] MockExecutor_init)
       = [Posted ''A'', Fired \<lparr>ident = 0, time = 0, action = ''B''\<rparr>]"
proof -
  let ?cs = "[Post ''A'', StartAbs 0 ''B'', RunOne, RunOne]"
  have q: "post_queue (calls ?cs MockExecutor_init) = []"
    and i: "invoked (calls ?cs MockExecutor_init)
              = [Posted ''A'', Fired \<lparr>ident = 0, time = 0, action = ''B''\<rparr>]"
    by (simp_all add: calls_def run_one_refines run_one_spec_def due_def expired_def
          expires_at_def post_def start_abs_def MockExecutor_init_def)
  from C5_fifo [of "MockExecutor_init" "[''x'', ''y'']" ?cs] q i
  show ?thesis
    by (simp add: num_active_def MockExecutor_init_def)
qed

subsection \<open>Finding a timer by its identity\<close>

lemma find_if_unique:
  "distinct (map f xs) \<Longrightarrow> x \<in> set xs \<Longrightarrow>
     \<exists>i. find_if (\<lambda>y. f y = f x) xs = Some i \<and> erase i xs = remove1 x xs"
proof (induction xs)
  case Nil
  then show ?case by simp
next
  case (Cons y ys)
  show ?case
  proof (cases "f y = f x")
    case True
    with Cons.prems have "x = y" by (auto simp: image_iff)
    with True show ?thesis by simp
  next
    case False
    with Cons.prems have "x \<in> set ys" and "distinct (map f ys)" and "x \<noteq> y" by auto
    with Cons.IH obtain i where "find_if (\<lambda>y. f y = f x) ys = Some i" "erase i ys = remove1 x ys"
      by blast
    with False \<open>x \<noteq> y\<close> show ?thesis by simp
  qed
qed

lemma remove1_ident_gone:
  "distinct (map f xs) \<Longrightarrow> x \<in> set xs \<Longrightarrow> f x \<notin> f ` set (remove1 x xs)"
  by (induction xs) (auto simp: image_iff)

lemma set_erase: "set (erase i xs) \<subseteq> set xs"
  by (induction i xs rule: erase.induct) auto

lemma distinct_map_erase: "distinct (map f xs) \<Longrightarrow> distinct (map f (erase i xs))"
proof (induction i xs rule: erase.induct)
  case (3 i x xs)
  then show ?case using set_erase [of i xs] by auto
qed simp_all

lemma cancel_pending:
  assumes "distinct (map ident (timers s))" and "t \<in> set (timers s)"
  shows "cancel (ident t) s =
           s\<lparr>num_timer_cancel := num_timer_cancel s + 1, timers := remove1 t (timers s)\<rparr>"
  using find_if_unique [OF assms] by (auto simp: cancel_def)

lemma cancel_absent: "h \<notin> ident ` set (timers s) \<Longrightarrow> cancel h s = s"
proof -
  assume "h \<notin> ident ` set (timers s)"
  then have "filter (\<lambda>item. ident item = h) (timers s) = []"
    by (auto simp: filter_empty_conv)
  then have "find_if (\<lambda>item. ident item = h) (timers s) = None"
    by (simp add: find_if_None_iff)
  then show ?thesis by (simp add: cancel_def)
qed

lemma funpow_fixed: "f x = x \<Longrightarrow> (f ^^ n) x = x"
  by (induction n) simp_all

subsection \<open>The identities of the timers under the calls\<close>

lemma fired_idents_Cons: "fired_idents (e # q) = fired_ident e @ fired_idents q"
  by (simp add: fired_idents_def)

lemma fired_idents_map_Fired: "fired_idents (map Fired ts) = map ident ts"
  by (induction ts) (simp_all add: fired_idents_def)

lemma fired_idents_simps [simp]:
  "fired_idents [] = []"
  "fired_idents (xs @ ys) = fired_idents xs @ fired_idents ys"
  "fired_idents (Posted a # xs) = fired_idents xs"
  "fired_idents (Fired t # xs) = ident t # fired_idents xs"
  by (simp_all add: fired_idents_def)

lemma mset_map_partition:
  "mset (map f (filter (\<lambda>x. \<not> P x) xs)) + mset (map f (filter P xs)) = mset (map f xs)"
  by (induction xs) simp_all

lemma mset_idents_sweep: "mset (idents (sweep s)) = mset (idents s)"
  using mset_map_partition [of ident "expired s" "timers s"]
  by (simp add: idents_def due_def fired_idents_map_Fired ac_simps)

lemma allocated_run_one: "allocated (snd (run_one s)) = allocated s"
  by (cases "post_queue (sweep s)") (simp_all add: run_one_Nil run_one_Cons del: sweep_fields, simp_all)

lemma mset_idents_run_one: "mset (idents (snd (run_one s))) = mset (idents s)"
proof (cases "post_queue (sweep s)")
  case Nil
  then show ?thesis by (simp add: run_one_Nil mset_idents_sweep del: sweep_fields)
next
  case (Cons e q)
  have "mset (idents ((sweep s)\<lparr>post_queue := q, invoked := invoked s @ [e]\<rparr>))
          = mset (idents (sweep s))"
    using Cons by (cases e) (simp_all add: idents_def del: sweep_fields, simp_all)
  then show ?thesis
    by (simp add: run_one_Cons [OF Cons] mset_idents_sweep del: sweep_fields)
qed

lemma run_many_loop_idents:
  "mset (idents (snd (run_many_loop k m s))) = mset (idents s)
   \<and> allocated (snd (run_many_loop k m s)) = allocated s"
proof (induction k m s rule: run_many_loop.induct)
  case (1 num aMaximum s)
  show ?case
  proof (cases "num < aMaximum")
    case False
    then show ?thesis by (subst (1 2) run_many_loop.simps) simp
  next
    case True
    obtain b s' where r: "run_one s = (b, s')" by (cases "run_one s")
    have s': "mset (idents s') = mset (idents s)" "allocated s' = allocated s"
      using mset_idents_run_one [of s] allocated_run_one [of s] r by simp_all
    show ?thesis
    proof (cases b)
      case True
      with \<open>num < aMaximum\<close> r "1.IH" s' show ?thesis
        by (subst (1 2) run_many_loop.simps) simp
    next
      case False
      with \<open>num < aMaximum\<close> r s' show ?thesis
        by (subst (1 2) run_many_loop.simps) simp
    qed
  qed
qed

lemma perform_idents:
  "set (idents (perform c s)) \<subseteq> set (idents s) \<union> {allocated s}
   \<and> allocated s \<le> allocated (perform c s)"
proof (cases c)
  case (Cancel h)
  show ?thesis
    using set_erase [of _ "timers s"]
    by (auto simp: Cancel cancel_def idents_def split: option.splits)
next
  case RunOne
  show ?thesis
    using mset_eq_setD [OF mset_idents_run_one [of s]]
    by (auto simp: RunOne allocated_run_one)
next
  case (RunMany n)
  show ?thesis
    using run_many_loop_idents [of 0 n s] mset_eq_setD [of "idents (snd (run_many_loop 0 n s))" "idents s"]
    by (auto simp: RunMany run_many_def)
next
  case (AdvanceTime d)
  have "idents (add_time d s) = idents s"
    by (simp add: idents_def add_time_def)
  then show ?thesis
    using mset_eq_setD [OF mset_idents_sweep [of "add_time d s"]]
    by (auto simp: AdvanceTime advance_time_def check_for_expired_timers_sweep add_time_def)
qed (auto simp: idents_def post_def start_rel_def start_abs_def add_time_def
       advance_to_next_timer_def Let_def)

lemma gone_perform: "gone p s \<Longrightarrow> gone p (perform c s)"
  using perform_idents [of c s] by (auto simp: gone_def)

lemma gone_calls: "gone p s \<Longrightarrow> gone p (calls cs s)"
  unfolding calls_def by (induction cs arbitrary: s) (simp_all add: gone_perform)

lemma unique_idents_mset:
  "mset (idents s') = mset (idents s) \<Longrightarrow> allocated s' = allocated s \<Longrightarrow>
     unique_idents s \<Longrightarrow> unique_idents s'"
  using mset_eq_imp_distinct_iff [of "idents s'" "idents s"] mset_eq_setD [of "idents s'" "idents s"]
  by (simp add: unique_idents_def list_all_iff)

lemma unique_idents_start_abs:
  assumes "unique_idents s"
  shows "unique_idents (snd (start_abs t a s))"
proof -
  let ?s' = "snd (start_abs t a s)"
  from assms have d: "distinct (idents s)" and a: "\<forall>i \<in> set (idents s). i < allocated s"
    by (simp_all add: unique_idents_def list_all_iff)
  from a have fresh: "allocated s \<notin> set (idents s)" by auto
  have m: "mset (idents ?s') = add_mset (allocated s) (mset (idents s))"
    by (simp add: start_abs_def idents_def)
  have "distinct (allocated s # idents s)" using d fresh by simp
  with m have "distinct (idents ?s')"
    using mset_eq_imp_distinct_iff [of "idents ?s'" "allocated s # idents s"] by simp
  moreover have "set (idents ?s') = insert (allocated s) (set (idents s))"
    using mset_eq_setD [of "idents ?s'" "allocated s # idents s"] m by simp
  then have "\<forall>i \<in> set (idents ?s'). i < allocated ?s'"
    using a by (auto simp: start_abs_def)
  ultimately show ?thesis by (simp add: unique_idents_def list_all_iff)
qed

lemma unique_idents_perform: "unique_idents s \<Longrightarrow> unique_idents (perform c s)"
proof (cases c)
  case (Post a)
  assume "unique_idents s" then show ?thesis
    by (simp add: Post post_def unique_idents_def idents_def)
next
  case (StartRel d a)
  assume "unique_idents s" then show ?thesis
    by (simp add: StartRel start_rel_def unique_idents_start_abs)
next
  case (StartAbs t a)
  assume "unique_idents s" then show ?thesis
    by (simp add: StartAbs unique_idents_start_abs)
next
  case (Cancel h)
  assume u: "unique_idents s"
  show ?thesis
  proof (cases "find_if (\<lambda>item. ident item = h) (timers s)")
    case None
    with u show ?thesis by (simp add: Cancel cancel_def)
  next
    case (Some i)
    from u have "distinct (map ident (erase i (timers s)))"
      by (simp add: unique_idents_def idents_def distinct_map_erase)
    with u set_erase [of i "timers s"] show ?thesis
      by (auto simp: Cancel cancel_def Some unique_idents_def idents_def list_all_iff)
  qed
next
  case RunOne
  assume "unique_idents s" then show ?thesis
    by (simp add: RunOne unique_idents_mset [OF mset_idents_run_one allocated_run_one])
next
  case (RunMany n)
  assume "unique_idents s" then show ?thesis
    using run_many_loop_idents [of 0 n s]
    by (simp add: RunMany run_many_def unique_idents_mset)
next
  case (AdvanceTime d)
  assume "unique_idents s"
  then have "unique_idents (add_time d s)"
    by (simp add: unique_idents_def idents_def add_time_def)
  then show ?thesis
    by (simp add: AdvanceTime advance_time_def check_for_expired_timers_sweep
          unique_idents_mset [OF mset_idents_sweep])
next
  case (AddTime d)
  assume "unique_idents s" then show ?thesis
    by (simp add: AddTime unique_idents_def idents_def add_time_def)
next
  case AdvanceToNextTimer
  assume "unique_idents s" then show ?thesis
    by (simp add: AdvanceToNextTimer unique_idents_def idents_def advance_to_next_timer_def Let_def)
qed

lemma unique_idents_reachable: "unique_idents (calls cs MockExecutor_init)"
proof -
  have "unique_idents s \<Longrightarrow> unique_idents (calls cs s)" for s :: "'a MockExecutor"
    unfolding calls_def by (induction cs arbitrary: s) (simp_all add: unique_idents_perform)
  moreover have "unique_idents (MockExecutor_init :: 'a MockExecutor)"
    by (simp add: unique_idents_def idents_def MockExecutor_init_def)
  ultimately show ?thesis .
qed

lemma fired_in_idents: "Fired t \<in> set es \<Longrightarrow> ident t \<in> set (fired_idents es)"
  by (induction es) (auto simp: fired_idents_Cons)

text \<open>
  C7: in a state where every timer object has its own identity (every state reached from
  a fresh scheduler is one, \<open>unique_idents_reachable\<close>), \<open>cancel()\<close> on a timer that is
  still pending removes it from the pending set and increments \<open>num_timer_cancel()\<close> by
  exactly 1 (the counter is a \<open>size_t\<close>; as a number it grows by 1 unless it was at its
  largest value), leaves the ready queue, the clock and the invocations unchanged, and
  whatever calls follow, the timer's action is never invoked; repeated calls change
  nothing more. On a timer that has already fired (it is in the ready queue or has run)
  or is no longer pending (cancelled), any number of \<open>cancel()\<close> calls leave the whole
  scheduler state unchanged.
\<close>

theorem C7_cancel:
  assumes "unique_idents s"
  shows
   "(t \<in> set (timers s) \<longrightarrow>
       timers (MockTimer_cancel t s) = remove1 t (timers s)
     \<and> t \<notin> set (timers (MockTimer_cancel t s))
     \<and> num_pending_timers (MockTimer_cancel t s) + 1 = num_pending_timers s
     \<and> num_timer_cancel (MockTimer_cancel t s) = num_timer_cancel s + 1
     \<and> (num_timer_cancel s \<noteq> - 1 \<longrightarrow>
          unat (num_timer_cancel (MockTimer_cancel t s)) = unat (num_timer_cancel s) + 1)
     \<and> post_queue (MockTimer_cancel t s) = post_queue s
     \<and> current_time (MockTimer_cancel t s) = current_time s
     \<and> invoked (MockTimer_cancel t s) = invoked s
     \<and> (\<forall>cs. Fired t \<notin> set (invoked (calls cs (MockTimer_cancel t s)))
             \<and> ident t \<notin> set (fired_idents (invoked (calls cs (MockTimer_cancel t s)))))
     \<and> (\<forall>n. (MockTimer_cancel t ^^ Suc n) s = MockTimer_cancel t s))
    \<and> (Fired t \<in> set (post_queue s) \<or> Fired t \<in> set (invoked s)
         \<or> ident t \<notin> ident ` set (timers s) \<longrightarrow>
       (\<forall>n. (MockTimer_cancel t ^^ n) s = s))"
proof -
  from assms have d: "distinct (idents s)" and a: "\<forall>i \<in> set (idents s). i < allocated s"
    by (simp_all add: unique_idents_def list_all_iff)
  from d have dt: "distinct (map ident (timers s))"
    by (simp add: idents_def)
  have pending: ?thesis if t: "t \<in> set (timers s)"
  proof -
    let ?s' = "MockTimer_cancel t s"
    have c: "?s' = s\<lparr>num_timer_cancel := num_timer_cancel s + 1,
                      timers := remove1 t (timers s)\<rparr>"
      by (simp add: MockTimer_cancel_def cancel_pending [OF dt t])
    have nt: "ident t \<notin> ident ` set (remove1 t (timers s))"
      by (rule remove1_ident_gone [OF dt t])
    then have t_out: "t \<notin> set (remove1 t (timers s))" by blast
    have len: "length (remove1 t (timers s)) + 1 = length (timers s)"
      using t by (simp add: length_remove1) (cases "timers s", simp_all)
    have un: "num_timer_cancel s \<noteq> - 1 \<longrightarrow>
          unat (num_timer_cancel s + 1) = unat (num_timer_cancel s) + 1"
      using unatSuc [of "num_timer_cancel s"]
      by (simp add: eq_neg_iff_add_eq_0 add.commute)
    have "ident t \<in> set (map ident (timers s))" using t by simp
    with d have "ident t \<notin> set (fired_idents (post_queue s))"
      and "ident t \<notin> set (fired_idents (invoked s))"
      by (auto simp: idents_def)
    with nt have "ident t \<notin> set (idents ?s')"
      by (simp add: c idents_def)
    moreover have "ident t < allocated ?s'"
      using a t by (simp add: c idents_def)
    ultimately have g: "gone (ident t) ?s'" by (simp add: gone_def)
    have never: "Fired t \<notin> set (invoked (calls cs ?s'))
             \<and> ident t \<notin> set (fired_idents (invoked (calls cs ?s')))" for cs
    proof -
      from gone_calls [OF g, of cs]
      have "ident t \<notin> set (fired_idents (invoked (calls cs ?s')))"
        by (simp add: gone_def idents_def)
      then show ?thesis using fired_in_idents by blast
    qed
    have again: "MockTimer_cancel t ?s' = ?s'"
      unfolding MockTimer_cancel_def
      by (rule cancel_absent) (use nt in \<open>simp add: c [unfolded MockTimer_cancel_def]\<close>)
    have rep: "(MockTimer_cancel t ^^ Suc n) s = ?s'" for n
      using funpow_fixed [of "MockTimer_cancel t" "MockTimer_cancel t s" n] again
      by (simp add: funpow_swap1)
    have absent: "ident t \<in> ident ` set (timers s)" using t by blast
    have nq: "Fired t \<notin> set (post_queue s)" "Fired t \<notin> set (invoked s)"
      using \<open>ident t \<notin> set (fired_idents (post_queue s))\<close>
        \<open>ident t \<notin> set (fired_idents (invoked s))\<close> fired_in_idents by blast+
    show ?thesis
      using t_out len un never rep absent nq
      by (simp add: c num_pending_timers_def)
  qed
  have noop: ?thesis if t: "t \<notin> set (timers s)"
  proof -
    have "(MockTimer_cancel t ^^ n) s = s"
      if h: "Fired t \<in> set (post_queue s) \<or> Fired t \<in> set (invoked s)
         \<or> ident t \<notin> ident ` set (timers s)" for n
    proof -
      have "ident t \<notin> ident ` set (timers s)"
      proof
        assume "ident t \<in> ident ` set (timers s)"
        then have i: "ident t \<in> set (map ident (timers s))" by simp
        with d have "ident t \<notin> set (fired_idents (post_queue s))"
          and "ident t \<notin> set (fired_idents (invoked s))"
          by (auto simp: idents_def)
        with h fired_in_idents have "ident t \<notin> ident ` set (timers s)" by blast
        with i show False by simp
      qed
      then have "MockTimer_cancel t s = s"
        by (simp add: MockTimer_cancel_def cancel_absent)
      then show ?thesis using funpow_fixed [of "MockTimer_cancel t" s n] by simp
    qed
    with t show ?thesis by blast
  qed
  from pending noop show ?thesis by blast
qed

theorem C7_cancel_witness:
  "unique_idents (snd (start_abs 5 ''B'' (post ''A'' MockExecutor_init)))
   \<and> \<lparr>ident = 0, time = 5, action = ''B''\<rparr>
       \<in> set (timers (snd (start_abs 5 ''B'' (post ''A'' MockExecutor_init))))
   \<and> timers (MockTimer_cancel \<lparr>ident = 0, time = 5, action = ''B''\<rparr>
        (snd (start_abs 5 ''B'' (post ''A'' MockExecutor_init)))) = []
   \<and> num_timer_cancel (MockTimer_cancel \<lparr>ident = 0, time = 5, action = ''B''\<rparr>
        (snd (start_abs 5 ''B'' (post ''A'' MockExecutor_init)))) = 1
   \<and> Fired \<lparr>ident = 0, time = 5, action = ''B''\<rparr>
       \<notin> set (invoked (calls [AdvanceTime 10, RunMany 5]
            (MockTimer_cancel \<lparr>ident = 0, time = 5, action = ''B''\<rparr>
               (snd (start_abs 5 ''B'' (post ''A'' MockExecutor_init))))))
   \<and> (MockTimer_cancel \<lparr>ident = 0, time = 5, action = ''B''\<rparr> ^^ 3)
        (snd (start_abs 5 ''B'' (post ''A'' MockExecutor_init)))
       = MockTimer_cancel \<lparr>ident = 0, time = 5, action = ''B''\<rparr>
           (snd (start_abs 5 ''B'' (post ''A'' MockExecutor_init)))
   \<and> unique_idents (snd (advance_time 10 (snd (start_abs 5 ''B'' MockExecutor_init))))
   \<and> Fired \<lparr>ident = 0, time = 5, action = ''B''\<rparr>
       \<in> set (post_queue (snd (advance_time 10 (snd (start_abs 5 ''B'' MockExecutor_init)))))
   \<and> MockTimer_cancel \<lparr>ident = 0, time = 5, action = ''B''\<rparr>
        (snd (advance_time 10 (snd (start_abs 5 ''B'' MockExecutor_init))))
       = snd (advance_time 10 (snd (start_abs 5 ''B'' MockExecutor_init)))"
proof -
  let ?t = "\<lparr>ident = 0, time = 5, action = ''B''\<rparr>"
  let ?s = "snd (start_abs 5 ''B'' (post ''A'' MockExecutor_init))"
  let ?u = "snd (advance_time 10 (snd (start_abs 5 ''B'' MockExecutor_init)))"
  have ts: "timers ?s = [?t]" and cs: "num_timer_cancel ?s = 0"
    by (simp_all add: start_abs_def post_def MockExecutor_init_def)
  have us: "unique_idents ?s"
    by (simp add: unique_idents_def idents_def fired_idents_def start_abs_def post_def
          MockExecutor_init_def)
  have qu: "post_queue ?u = [Fired ?t]" and tu: "timers ?u = []" and iu: "invoked ?u = []"
    and au: "allocated ?u = 1"
    by (simp_all add: advance_time_def check_for_expired_timers_sweep due_def expired_def
          expires_at_def add_time_def tick_wrap_def start_abs_def MockExecutor_init_def)
  have uu: "unique_idents ?u"
    by (simp add: unique_idents_def idents_def fired_idents_def qu tu iu au)
  have m: "?t \<in> set (timers ?s)" by (simp add: ts)
  have f: "Fired ?t \<in> set (post_queue ?u)" by (simp add: qu)
  from C7_cancel [OF us, of ?t] m
  have a: "timers (MockTimer_cancel ?t ?s) = remove1 ?t (timers ?s)"
    and b: "num_timer_cancel (MockTimer_cancel ?t ?s) = num_timer_cancel ?s + 1"
    and c: "Fired ?t \<notin> set (invoked (calls [AdvanceTime 10, RunMany 5] (MockTimer_cancel ?t ?s)))"
    and d: "(MockTimer_cancel ?t ^^ Suc 2) ?s = MockTimer_cancel ?t ?s"
    by blast+
  from C7_cancel [OF uu, of ?t] f
  have e: "(MockTimer_cancel ?t ^^ 1) ?u = ?u" by blast
  from a b c d e us uu m f show ?thesis
    by (simp add: ts cs numeral_3_eq_3)
qed

end
